theory Spec2Isabelle
  imports Main
begin

section \<open>The regular expression of \<^verbatim>\<open>remove-tt.py\<close>\<close>

text \<open>
  The script compiles one pattern,
  \<^verbatim>\<open>tt_regex = re.compile(r'\\texttt\{([^\}]+)\}')\<close>,
  and rewrites the whole input with \<^verbatim>\<open>tt_regex.sub(tt_replace, orig)\<close>.
  The pattern is a sequence of three items: the eight literal characters
  backslash, \<^verbatim>\<open>texttt\<close>, opening brace; group 1, a greedy \<^verbatim>\<open>+\<close> over the
  negated class \<^verbatim>\<open>[^}]\<close>; and the literal closing brace.
  Texts are \<^typ>\<open>string\<close>s; the backslash is character \<open>0x5C\<close>.
\<close>

definition marker :: string where
  "marker = CHR 0x5C # ''texttt{''"

text \<open>A match object: the whole matched span (group 0) and the capture (group 1).\<close>

record re_match =
  group0 :: string
  group1 :: string

text \<open>Matching a literal at the head of the text; the result is the text after it.\<close>

fun literal :: "string \<Rightarrow> string \<Rightarrow> string option" where
  "literal [] s = Some s"
| "literal (p # ps) [] = None"
| "literal (p # ps) (c # cs) = (if p = c then literal ps cs else None)"

text \<open>
  The greedy \<^verbatim>\<open>[^}]+\<close> first consumes the longest run of characters other than
  the closing brace. The engine then tries the rest of the pattern (the literal
  closing brace) after \<open>k\<close> consumed characters, for \<open>k\<close> from the length of that run
  downwards, and gives up below one character, the minimum of \<^verbatim>\<open>+\<close>.
\<close>

definition not_close :: "char \<Rightarrow> bool" where
  "not_close c = (c \<noteq> CHR ''}'')"

fun backtrack :: "string \<Rightarrow> nat \<Rightarrow> (string \<times> string) option" where
  "backtrack r 0 = None"
| "backtrack r (Suc k) =
     (case literal ''}'' (drop (Suc k) r) of
        Some rest \<Rightarrow> Some (take (Suc k) r, rest)
      | None \<Rightarrow> backtrack r k)"

text \<open>
  The anchored match of \<^verbatim>\<open>tt_regex\<close> at the head of a text: the match object
  and the text that follows the matched span.
\<close>

definition tt_regex :: "string \<Rightarrow> (re_match \<times> string) option" where
  "tt_regex s =
     (case literal marker s of
        None \<Rightarrow> None
      | Some r \<Rightarrow>
          (case backtrack r (length (takeWhile not_close r)) of
             None \<Rightarrow> None
           | Some (x, rest) \<Rightarrow>
               Some (\<lparr>group0 = marker @ x @ ''}'', group1 = x\<rparr>, rest)))"

text \<open>\<^verbatim>\<open>def tt_replace(m): return m.group(1)\<close>\<close>

definition tt_replace :: "re_match \<Rightarrow> string" where
  "tt_replace m = group1 m"

lemma literal_Some: "literal p s = Some r \<longleftrightarrow> s = p @ r"
  by (induction p s rule: literal.induct) auto

lemma backtrack_length:
  "backtrack r k = Some (x, rest) \<Longrightarrow> length rest < length r"
proof (induction k)
  case 0
  then show ?case by simp
next
  case (Suc k)
  show ?case
  proof (cases "literal ''}'' (drop (Suc k) r)")
    case None
    with Suc show ?thesis by simp
  next
    case (Some t)
    with Suc.prems have "rest = t" by simp
    moreover from Some have "drop (Suc k) r = ''}'' @ t"
      by (simp only: literal_Some)
    then have "length (drop (Suc k) r) = Suc (length t)" by simp
    ultimately show ?thesis by simp
  qed
qed

lemma tt_regex_length:
  assumes "tt_regex s = Some (m, rest)"
  shows "length rest < length s"
proof -
  from assms obtain r x where r: "literal marker s = Some r"
    and b: "backtrack r (length (takeWhile not_close r)) = Some (x, rest)"
    by (auto simp: tt_regex_def split: option.splits)
  from r have "length r \<le> length s" by (simp add: literal_Some)
  with backtrack_length [OF b] show ?thesis by simp
qed

text \<open>
  \<^verbatim>\<open>Pattern.sub(repl, string)\<close> scans the text from left to right. Where the
  pattern matches, the value of \<open>repl\<close> on the match object is emitted and the scan
  resumes right after the matched span; elsewhere the character is copied and the
  scan moves one character on. (The pattern has no empty match.)
\<close>

function (sequential) regex_sub :: "(re_match \<Rightarrow> string) \<Rightarrow> string \<Rightarrow> string" where
  "regex_sub repl [] = []"
| "regex_sub repl (c # cs) =
     (case tt_regex (c # cs) of
        Some (m, rest) \<Rightarrow> repl m @ regex_sub repl rest
      | None \<Rightarrow> c # regex_sub repl cs)"
  by pat_completeness auto
termination
  by (relation "measure (\<lambda>(repl, s). length s)") (auto dest: tt_regex_length)

text \<open>\<^verbatim>\<open>replaced = tt_regex.sub(tt_replace, orig)\<close>\<close>

definition replaced :: "string \<Rightarrow> string" where
  "replaced orig = regex_sub tt_replace orig"

text \<open>
  \<^verbatim>\<open>Pattern.finditer\<close>: the matches that the same scan finds, each with the
  offsets of its span in the text (start, end) and its capture. \<open>pos\<close> is the offset
  of the head of the remaining text.
\<close>

function (sequential) tt_finditer :: "nat \<Rightarrow> string \<Rightarrow> (nat \<times> nat \<times> string) list" where
  "tt_finditer pos [] = []"
| "tt_finditer pos (c # cs) =
     (case tt_regex (c # cs) of
        Some (m, rest) \<Rightarrow>
          (pos, pos + length (group0 m), group1 m) #
            tt_finditer (pos + length (group0 m)) rest
      | None \<Rightarrow> tt_finditer (Suc pos) cs)"
  by pat_completeness auto
termination
  by (relation "measure (\<lambda>(pos, s). length s)") (auto dest: tt_regex_length)

text \<open>\<^verbatim>\<open>Pattern.search\<close>: whether the pattern matches at some position of the text.\<close>

fun tt_search :: "string \<Rightarrow> bool" where
  "tt_search [] = False"
| "tt_search (c # cs) = (case tt_regex (c # cs) of Some mr \<Rightarrow> True | None \<Rightarrow> tt_search cs)"

text \<open>
  The positions at which the scan of \<open>regex_sub\<close> tries the pattern: offset \<open>0\<close>,
  the offset after a match, and the next offset where there is no match. An offset
  strictly inside a matched span is skipped.
\<close>

function (sequential) scan_reaches :: "string \<Rightarrow> nat \<Rightarrow> bool" where
  "scan_reaches s 0 = True"
| "scan_reaches [] (Suc n) = False"
| "scan_reaches (c # cs) (Suc n) =
     (case tt_regex (c # cs) of
        Some (m, rest) \<Rightarrow>
          (if length (group0 m) \<le> Suc n
           then scan_reaches rest (Suc n - length (group0 m)) else False)
      | None \<Rightarrow> scan_reaches cs n)"
  by pat_completeness auto
termination
  by (relation "measure (\<lambda>(s, n). length s)") (auto dest: tt_regex_length)


section \<open>The anchored match\<close>

lemma takeWhile_not_close:
  "CHR ''}'' \<notin> set x \<Longrightarrow> takeWhile not_close (x @ CHR ''}'' # rest) = x"
  by (induction x) (auto simp: not_close_def)

lemma backtrack_sound:
  "backtrack r k = Some (x, rest) \<Longrightarrow>
     \<exists>j. 0 < j \<and> j \<le> k \<and> x = take j r \<and> drop j r = CHR ''}'' # rest"
proof (induction k)
  case 0
  then show ?case by simp
next
  case (Suc k)
  show ?case
  proof (cases "literal ''}'' (drop (Suc k) r)")
    case None
    with Suc.prems have "backtrack r k = Some (x, rest)" by simp
    from Suc.IH [OF this] obtain j
      where "0 < j" "j \<le> k" "x = take j r" "drop j r = CHR ''}'' # rest" by blast
    then have "0 < j \<and> j \<le> Suc k \<and> x = take j r \<and> drop j r = CHR ''}'' # rest"
      by simp
    then show ?thesis ..
  next
    case (Some t)
    with Suc.prems have e: "x = take (Suc k) r" "rest = t" by simp_all
    from Some have "drop (Suc k) r = ''}'' @ t" by (simp only: literal_Some)
    with e have "0 < Suc k \<and> Suc k \<le> Suc k \<and> x = take (Suc k) r \<and>
        drop (Suc k) r = CHR ''}'' # rest" by simp
    then show ?thesis ..
  qed
qed

lemma backtrack_Some:
  "backtrack r (length (takeWhile not_close r)) = Some (x, rest) \<longleftrightarrow>
     x \<noteq> [] \<and> CHR ''}'' \<notin> set x \<and> r = x @ CHR ''}'' # rest"
    (is "?L \<longleftrightarrow> ?R")
proof
  assume ?L
  let ?n = "length (takeWhile not_close r)"
  from backtrack_sound [OF \<open>?L\<close>] obtain j
    where j: "0 < j" "j \<le> ?n" "x = take j r" "drop j r = CHR ''}'' # rest" by blast
  have r: "r = x @ CHR ''}'' # rest"
    using j(3,4) append_take_drop_id [of j r] by simp
  have "set (take j (takeWhile not_close r)) \<subseteq> set (takeWhile not_close r)"
    by (rule set_take_subset)
  moreover have "take j (takeWhile not_close r) = take j r"
    using j(2) by (metis takeWhile_eq_take take_take min.absorb1 min.commute)
  ultimately have "set x \<subseteq> set (takeWhile not_close r)" using j(3) by simp
  then have nc: "CHR ''}'' \<notin> set x"
    using set_takeWhileD [of "CHR ''}''" not_close r] by (auto simp: not_close_def)
  from j(4) have "j < length r" by (cases "j < length r") auto
  with j(1,3) have "x \<noteq> []" by auto
  with nc r show ?R by simp
next
  assume ?R
  then have x: "x \<noteq> []" and nc: "CHR ''}'' \<notin> set x" and r: "r = x @ CHR ''}'' # rest"
    by simp_all
  from x obtain k where k: "length x = Suc k" by (cases x) auto
  have n: "length (takeWhile not_close r) = Suc k"
    using takeWhile_not_close [OF nc, of rest] r k by simp
  have "drop (Suc k) r = CHR ''}'' # rest" using r k by simp
  then have l: "literal ''}'' (drop (Suc k) r) = Some rest" by simp
  have "take (Suc k) r = x" using r k by simp
  with l have "backtrack r (Suc k) = Some (x, rest)" by simp
  with n show ?L by simp
qed

lemma tt_regex_Some:
  "tt_regex s = Some (m, rest) \<longleftrightarrow>
     (\<exists>x. x \<noteq> [] \<and> CHR ''}'' \<notin> set x \<and> s = marker @ x @ CHR ''}'' # rest \<and>
          m = \<lparr>group0 = marker @ x @ ''}'', group1 = x\<rparr>)"
    (is "?L \<longleftrightarrow> ?R")
proof
  assume ?L
  then obtain r x where r: "literal marker s = Some r"
    and b: "backtrack r (length (takeWhile not_close r)) = Some (x, rest)"
    and m: "m = \<lparr>group0 = marker @ x @ ''}'', group1 = x\<rparr>"
    by (auto simp: tt_regex_def split: option.splits)
  from r have "s = marker @ r" by (simp only: literal_Some)
  moreover from b have "x \<noteq> [] \<and> CHR ''}'' \<notin> set x \<and> r = x @ CHR ''}'' # rest"
    by (rule iffD1 [OF backtrack_Some])
  ultimately show ?R using m by blast
next
  assume ?R
  then obtain x where x: "x \<noteq> []" "CHR ''}'' \<notin> set x"
    and s: "s = marker @ x @ CHR ''}'' # rest"
    and m: "m = \<lparr>group0 = marker @ x @ ''}'', group1 = x\<rparr>" by blast
  let ?r = "x @ CHR ''}'' # rest"
  have "literal marker s = Some ?r" using s by (simp only: literal_Some)
  moreover have "backtrack ?r (length (takeWhile not_close ?r)) = Some (x, rest)"
    using x by (intro iffD2 [OF backtrack_Some]) simp
  ultimately show ?L using m by (simp add: tt_regex_def)
qed

section \<open>Properties of the scan\<close>

lemma length_marker: "length marker = 8"
  by (simp add: marker_def)

lemma append_eq_split:
  assumes "p @ t = g @ rest" and "length g \<le> length p"
  shows "p = g @ drop (length g) p \<and> rest = drop (length g) p @ t"
proof -
  from assms(1) have "take (length g) (p @ t) = take (length g) (g @ rest)" by simp
  with assms(2) have tk: "take (length g) p = g" by simp
  from assms(1) have "drop (length g) (p @ t) = drop (length g) (g @ rest)" by simp
  with assms(2) have dr: "drop (length g) p @ t = rest" by simp
  from tk have "p = g @ drop (length g) p"
    using append_take_drop_id [of "length g" p] by simp
  with dr show ?thesis by simp
qed

lemma tt_regex_append:
  "tt_regex p = Some (m, r) \<Longrightarrow> tt_regex (p @ t) = Some (m, r @ t)"
  by (auto simp: tt_regex_Some)

lemma tt_regex_None_append:
  "tt_regex (p @ t) = None \<Longrightarrow> tt_regex p = None"
proof (cases "tt_regex p")
  case None
  then show ?thesis .
next
  case (Some mr)
  obtain m r where "mr = (m, r)" by (cases mr)
  with Some have "tt_regex (p @ t) = Some (m, r @ t)" by (simp add: tt_regex_append)
  moreover assume "tt_regex (p @ t) = None"
  ultimately show ?thesis by simp
qed

lemma tt_regex_span:
  "tt_regex s = Some (m, rest) \<Longrightarrow> s = group0 m @ rest \<and> group0 m = marker @ group1 m @ ''}''
     \<and> group1 m \<noteq> [] \<and> CHR ''}'' \<notin> set (group1 m)"
  by (auto simp: tt_regex_Some)

lemma tt_regex_within:
  assumes "tt_regex (p @ t) = Some (m, rest)" and "length (group0 m) \<le> length p"
  shows "\<exists>r. rest = r @ t \<and> tt_regex p = Some (m, r)"
proof -
  from assms(1) obtain x where x: "x \<noteq> []" "CHR ''}'' \<notin> set x"
    and s: "p @ t = marker @ x @ CHR ''}'' # rest"
    and m: "m = \<lparr>group0 = marker @ x @ ''}'', group1 = x\<rparr>"
    by (auto simp: tt_regex_Some)
  let ?g = "marker @ x @ ''}''"
  from s have "p @ t = ?g @ rest" by simp
  moreover from assms(2) m have "length ?g \<le> length p" by simp
  ultimately obtain r where r: "p = ?g @ r" "rest = r @ t"
    using append_eq_split [of p t ?g rest] by blast
  from r(1) x m have "tt_regex p = Some (m, r)" by (auto simp: tt_regex_Some)
  with r(2) show ?thesis by blast
qed

lemma tt_regex_hd: "tt_regex (c # cs) = Some mr \<Longrightarrow> c = CHR 0x5C"
  by (cases mr) (auto simp: tt_regex_Some marker_def)

lemma tt_regex_no_close: "CHR ''}'' \<notin> set s \<Longrightarrow> tt_regex s = None"
  by (cases "tt_regex s") (auto simp: tt_regex_Some)

lemma tt_regex_close_in:
  assumes "tt_regex (p @ t) = Some (m, rest)" and "CHR ''}'' \<notin> set t"
  shows "length (group0 m) \<le> length p"
proof (rule ccontr)
  assume "\<not> length (group0 m) \<le> length p"
  then have lt: "length p < length (group0 m)" by simp
  from tt_regex_span [OF assms(1)]
  have s: "p @ t = group0 m @ rest" and g: "group0 m = marker @ group1 m @ ''}''" by simp_all
  from s lt have "group0 m = p @ drop (length p) (group0 m) \<and>
      t = drop (length p) (group0 m) @ rest"
    using append_eq_split [of "group0 m" rest p t] by simp
  moreover from lt have "drop (length p) (group0 m) \<noteq> []" by simp
  ultimately obtain u where u: "group0 m = p @ u" "u \<noteq> []" "t = u @ rest" by blast
  from g have "last (group0 m) = CHR ''}''" by simp
  with u(1,2) have "last u = CHR ''}''" by (metis last_appendR)
  with u(2) have "CHR ''}'' \<in> set u" by (metis last_in_set)
  with u(3) assms(2) show False by simp
qed

lemma sub_no_close: "CHR ''}'' \<notin> set s \<Longrightarrow> regex_sub f s = s"
  by (induction s) (simp_all add: tt_regex_no_close)

lemma finditer_no_close: "CHR ''}'' \<notin> set s \<Longrightarrow> tt_finditer pos s = []"
  by (induction s arbitrary: pos) (simp_all add: tt_regex_no_close)

lemma sub_append_no_close:
  "CHR ''}'' \<notin> set t \<Longrightarrow> regex_sub f (p @ t) = regex_sub f p @ t"
proof (induction f p rule: regex_sub.induct)
  case (1 repl)
  then show ?case by (simp add: sub_no_close)
next
  case (2 repl c cs)
  show ?case
  proof (cases "tt_regex ((c # cs) @ t)")
    case None
    then have "tt_regex (c # cs) = None" by (rule tt_regex_None_append)
    with None 2 show ?thesis by simp
  next
    case (Some mr)
    obtain m rest where mr: "mr = (m, rest)" by (cases mr)
    from Some mr have a: "tt_regex ((c # cs) @ t) = Some (m, rest)" by simp
    from tt_regex_close_in [OF a "2.prems"] have "length (group0 m) \<le> length (c # cs)" .
    from tt_regex_within [OF a this] obtain r
      where r: "rest = r @ t" "tt_regex (c # cs) = Some (m, r)" by blast
    from "2.IH"(2) [OF r(2) refl "2.prems"] have "regex_sub repl (r @ t) = regex_sub repl r @ t" .
    with a r show ?thesis by simp
  qed
qed

lemma finditer_append_no_close:
  "CHR ''}'' \<notin> set t \<Longrightarrow> tt_finditer pos (p @ t) = tt_finditer pos p"
proof (induction pos p rule: tt_finditer.induct)
  case (1 pos)
  then show ?case by (simp add: finditer_no_close)
next
  case (2 pos c cs)
  show ?case
  proof (cases "tt_regex ((c # cs) @ t)")
    case None
    then have "tt_regex (c # cs) = None" by (rule tt_regex_None_append)
    with None 2 show ?thesis by simp
  next
    case (Some mr)
    obtain m rest where mr: "mr = (m, rest)" by (cases mr)
    from Some mr have a: "tt_regex ((c # cs) @ t) = Some (m, rest)" by simp
    from tt_regex_close_in [OF a "2.prems"] have "length (group0 m) \<le> length (c # cs)" .
    from tt_regex_within [OF a this] obtain r
      where r: "rest = r @ t" "tt_regex (c # cs) = Some (m, r)" by blast
    from "2.IH"(2) [OF r(2) refl "2.prems"]
    have "tt_finditer (pos + length (group0 m)) (r @ t) = tt_finditer (pos + length (group0 m)) r" .
    with a r show ?thesis by simp
  qed
qed

lemma sub_split:
  "scan_reaches (p @ t) (length p) \<Longrightarrow> regex_sub f (p @ t) = regex_sub f p @ regex_sub f t"
proof (induction f p rule: regex_sub.induct)
  case (1 repl)
  then show ?case by simp
next
  case (2 repl c cs)
  show ?case
  proof (cases "tt_regex ((c # cs) @ t)")
    case None
    then have n: "tt_regex (c # cs) = None" by (rule tt_regex_None_append)
    from None "2.prems" have "scan_reaches (cs @ t) (length cs)" by simp
    from "2.IH"(1) [OF n this] None n show ?thesis by simp
  next
    case (Some mr)
    obtain m rest where mr: "mr = (m, rest)" by (cases mr)
    from Some mr have a: "tt_regex ((c # cs) @ t) = Some (m, rest)" by simp
    with "2.prems" have le: "length (group0 m) \<le> length (c # cs)"
      and sr: "scan_reaches rest (Suc (length cs) - length (group0 m))"
      by (simp_all split: if_splits)
    from tt_regex_within [OF a le] obtain r
      where r: "rest = r @ t" "tt_regex (c # cs) = Some (m, r)" by blast
    from tt_regex_span [OF r(2)] have "length (c # cs) = length (group0 m) + length r"
      by (metis length_append)
    with sr r(1) have "scan_reaches (r @ t) (length r)" by simp
    from "2.IH"(2) [OF r(2) refl this] a r show ?thesis by simp
  qed
qed

lemma sub_no_match: "\<not> tt_search s \<Longrightarrow> regex_sub f s = s"
  by (induction s) (auto split: option.splits)

lemma finditer_no_match: "\<not> tt_search s \<Longrightarrow> tt_finditer pos s = []"
  by (induction s arbitrary: pos) (auto split: option.splits)

lemma length_sub_finditer:
  "length (regex_sub tt_replace s) + 9 * length (tt_finditer pos s) = length s"
proof (induction pos s rule: tt_finditer.induct)
  case (1 pos)
  then show ?case by simp
next
  case (2 pos c cs)
  show ?case
  proof (cases "tt_regex (c # cs)")
    case None
    with 2 show ?thesis by simp
  next
    case (Some mr)
    obtain m rest where mr: "mr = (m, rest)" by (cases mr)
    from Some mr have a: "tt_regex (c # cs) = Some (m, rest)" by simp
    from tt_regex_span [OF a] have "length (c # cs) = length (group0 m) + length rest"
      and "length (group0 m) = 9 + length (group1 m)"
      by (metis length_append, simp add: length_marker)
    with "2.IH"(2) [OF a refl] a show ?thesis by (simp add: tt_replace_def)
  qed
qed

lemmas eval_defs = replaced_def marker_def tt_regex_def tt_replace_def not_close_def

lemma sub_cons_other:
  "c \<noteq> CHR 0x5C \<Longrightarrow> regex_sub f (c # cs) = c # regex_sub f cs"
  by (cases "tt_regex (c # cs)") (auto dest: tt_regex_hd)

lemma tt_regex_empty_capture: "tt_regex (marker @ CHR ''}'' # post) = None"
proof (cases "tt_regex (marker @ CHR ''}'' # post)")
  case None
  then show ?thesis .
next
  case (Some mr)
  obtain m rest where "mr = (m, rest)" by (cases mr)
  with Some obtain x where x: "x \<noteq> []" "CHR ''}'' \<notin> set x"
    and "marker @ CHR ''}'' # post = marker @ x @ CHR ''}'' # rest"
    by (auto simp: tt_regex_Some)
  then have "CHR ''}'' # post = x @ CHR ''}'' # rest" by simp
  with x(1) have "hd x = CHR ''}''" by (cases x) auto
  with x show ?thesis by (cases x) auto
qed

lemma sub_empty_capture:
  "regex_sub f (marker @ CHR ''}'' # post) = marker @ CHR ''}'' # regex_sub f post"
proof -
  have "regex_sub f (marker @ CHR ''}'' # post) =
        CHR 0x5C # regex_sub f (''texttt{}'' @ post)"
    using tt_regex_empty_capture [of post] by (simp add: marker_def)
  also have "regex_sub f (''texttt{}'' @ post) = ''texttt{}'' @ regex_sub f post"
    by (simp add: sub_cons_other del: regex_sub.simps)
  finally show ?thesis by (simp add: marker_def)
qed

lemma sub_occurrence:
  assumes "x \<noteq> []" and "CHR ''}'' \<notin> set x"
  shows "regex_sub f (marker @ x @ CHR ''}'' # post) =
         f \<lparr>group0 = marker @ x @ ''}'', group1 = x\<rparr> @ regex_sub f post"
proof -
  let ?m = "\<lparr>group0 = marker @ x @ ''}'', group1 = x\<rparr>"
  have t: "tt_regex (marker @ x @ CHR ''}'' # post) = Some (?m, post)"
    using assms by (auto simp: tt_regex_Some)
  obtain c cs where "marker @ x @ CHR ''}'' # post = c # cs" by (simp add: marker_def)
  with t show ?thesis by simp
qed

section \<open>The list of matches\<close>

text \<open>
  Three notions to state what the list of matches is. The spans are in order and
  disjoint between the offsets \<open>lo\<close> and \<open>hi\<close>: each starts at or after the end of the
  one before, and is not empty.
\<close>

fun ordered_spans :: "nat \<Rightarrow> nat \<Rightarrow> (nat \<times> nat \<times> string) list \<Rightarrow> bool" where
  "ordered_spans lo hi [] = True"
| "ordered_spans lo hi ((a, b, x) # ms) = (lo \<le> a \<and> a < b \<and> b \<le> hi \<and> ordered_spans b hi ms)"

text \<open>
  Each span of the text \<open>s\<close> reads marker, capture, closing brace, and the capture is
  not empty and has no closing brace.
\<close>

fun spans_match :: "string \<Rightarrow> (nat \<times> nat \<times> string) list \<Rightarrow> bool" where
  "spans_match s [] = True"
| "spans_match s ((a, b, x) # ms) =
     (take (b - a) (drop a s) = marker @ x @ ''}'' \<and> x \<noteq> [] \<and> CHR ''}'' \<notin> set x \<and>
      spans_match s ms)"

text \<open>
  The text \<open>s\<close>, which starts at offset \<open>pos\<close>, with each span replaced by its
  capture and the text between the spans kept.
\<close>

fun splice :: "nat \<Rightarrow> string \<Rightarrow> (nat \<times> nat \<times> string) list \<Rightarrow> string" where
  "splice pos s [] = s"
| "splice pos s ((a, b, x) # ms) = take (a - pos) s @ x @ splice b (drop (b - pos) s) ms"

lemma ordered_spans_lower:
  "ordered_spans lo hi ms \<Longrightarrow> lo' \<le> lo \<Longrightarrow> ordered_spans lo' hi ms"
  by (cases ms) auto

lemma ordered_spans_finditer: "ordered_spans pos (pos + length s) (tt_finditer pos s)"
proof (induction pos s rule: tt_finditer.induct)
  case (1 pos)
  then show ?case by simp
next
  case (2 pos c cs)
  show ?case
  proof (cases "tt_regex (c # cs)")
    case None
    from "2.IH"(1) [OF None]
    have "ordered_spans pos (pos + length (c # cs)) (tt_finditer (Suc pos) cs)"
      by (auto intro: ordered_spans_lower)
    with None show ?thesis by simp
  next
    case (Some mr)
    obtain m rest where mr: "mr = (m, rest)" by (cases mr)
    from Some mr have a: "tt_regex (c # cs) = Some (m, rest)" by simp
    from tt_regex_span [OF a] have l: "length (c # cs) = length (group0 m) + length rest"
      and g: "0 < length (group0 m)"
      by (metis length_append, simp add: length_marker)
    from "2.IH"(2) [OF a refl] l
    have "ordered_spans (pos + length (group0 m)) (pos + length (c # cs))
            (tt_finditer (pos + length (group0 m)) rest)"
      by (simp add: add.assoc)
    with a g l show ?thesis by simp
  qed
qed

lemma spans_match_finditer:
  "length p = pos \<Longrightarrow> spans_match (p @ s) (tt_finditer pos s)"
proof (induction pos s arbitrary: p rule: tt_finditer.induct)
  case (1 pos)
  then show ?case by simp
next
  case (2 pos c cs)
  show ?case
  proof (cases "tt_regex (c # cs)")
    case None
    from "2.prems" have "length (p @ [c]) = Suc pos" by simp
    from "2.IH"(1) [OF None this] None show ?thesis by simp
  next
    case (Some mr)
    obtain m rest where mr: "mr = (m, rest)" by (cases mr)
    from Some mr have a: "tt_regex (c # cs) = Some (m, rest)" by simp
    from tt_regex_span [OF a] have s: "c # cs = group0 m @ rest"
      and g: "group0 m = marker @ group1 m @ ''}''"
      and x: "group1 m \<noteq> []" "CHR ''}'' \<notin> set (group1 m)" by simp_all
    from "2.prems" have "length (p @ group0 m) = pos + length (group0 m)" by simp
    from "2.IH"(2) [OF a refl this] s
    have r: "spans_match (p @ c # cs) (tt_finditer (pos + length (group0 m)) rest)" by simp
    have "take (length (group0 m)) (drop pos (p @ c # cs)) = group0 m"
      using "2.prems" s by simp
    with r a g x show ?thesis by simp
  qed
qed

lemma splice_shift:
  "ordered_spans (Suc pos) hi ms \<Longrightarrow> splice pos (c # cs) ms = c # splice (Suc pos) cs ms"
proof (cases ms)
  case Nil
  then show ?thesis by simp
next
  case (Cons sp ms')
  obtain a b x where sp: "sp = (a, b, x)" by (cases sp)
  assume "ordered_spans (Suc pos) hi ms"
  with Cons sp have le: "Suc pos \<le> a" "a < b" by simp_all
  then have "a - pos = Suc (a - Suc pos)" "b - pos = Suc (b - Suc pos)" by simp_all
  with Cons sp show ?thesis by simp
qed

lemma sub_splice: "regex_sub tt_replace s = splice pos s (tt_finditer pos s)"
proof (induction pos s rule: tt_finditer.induct)
  case (1 pos)
  then show ?case by simp
next
  case (2 pos c cs)
  show ?case
  proof (cases "tt_regex (c # cs)")
    case None
    have "splice pos (c # cs) (tt_finditer (Suc pos) cs) =
          c # splice (Suc pos) cs (tt_finditer (Suc pos) cs)"
      using ordered_spans_finditer [of "Suc pos" cs] by (rule splice_shift)
    with "2.IH"(1) [OF None] None show ?thesis by simp
  next
    case (Some mr)
    obtain m rest where mr: "mr = (m, rest)" by (cases mr)
    from Some mr have a: "tt_regex (c # cs) = Some (m, rest)" by simp
    from tt_regex_span [OF a] have "c # cs = group0 m @ rest" by simp
    then have "drop (length (group0 m)) (c # cs) = rest" by simp
    with "2.IH"(2) [OF a refl] a show ?thesis by (simp add: tt_replace_def)
  qed
qed

section \<open>A second pass\<close>

text \<open>
  A capture is plain text when it has no backslash and no brace.
\<close>

definition plain :: "string \<Rightarrow> bool" where
  "plain x = list_all (\<lambda>c. c \<noteq> CHR 0x5C \<and> c \<noteq> CHR ''{'' \<and> c \<noteq> CHR ''}'') x"

text \<open>The captures of the matches that the scan replaces.\<close>

definition captures :: "string \<Rightarrow> string list" where
  "captures s = map (\<lambda>(a, b, x). x) (tt_finditer 0 s)"

text \<open>
  \<open>continues ws cs\<close>: the text \<open>cs\<close> is some first letters of \<open>ws\<close>, fewer than all,
  followed at once by a match of the pattern whose capture is the next letters of
  \<open>ws\<close>. With \<open>ws\<close> the marker without its backslash and \<open>cs\<close> the text after a
  copied backslash, the capture continues a marker that the copied text began.
\<close>

fun continues :: "string \<Rightarrow> string \<Rightarrow> bool" where
  "continues [] cs = False"
| "continues (w # ws) cs =
     (case tt_regex cs of
        Some (m, rest) \<Rightarrow> take (length (group1 m)) (w # ws) = group1 m
      | None \<Rightarrow> (case cs of [] \<Rightarrow> False | c # cs' \<Rightarrow> c = w \<and> continues ws cs'))"

text \<open>
  The scan of \<open>regex_sub\<close> again, checking that every capture it replaces is plain
  text and that none continues a marker begun by a backslash that the scan copies.
\<close>

function (sequential) separate_plain :: "string \<Rightarrow> bool" where
  "separate_plain [] = True"
| "separate_plain (c # cs) =
     (case tt_regex (c # cs) of
        Some (m, rest) \<Rightarrow> plain (group1 m) \<and> separate_plain rest
      | None \<Rightarrow>
          (if c = CHR 0x5C then \<not> continues (tl marker) cs else True) \<and> separate_plain cs)"
  by pat_completeness auto
termination
  by (relation "measure length") (auto dest: tt_regex_length)

lemma plain_no_backslash: "plain x \<Longrightarrow> CHR 0x5C \<notin> set x"
  by (auto simp: plain_def list_all_iff)

lemma plain_no_open: "plain x \<Longrightarrow> CHR ''{'' \<notin> set x"
  by (auto simp: plain_def list_all_iff)

lemma search_append_plain: "CHR 0x5C \<notin> set x \<Longrightarrow> tt_search (x @ t) = tt_search t"
proof (induction x)
  case Nil
  then show ?case by simp
next
  case (Cons a x)
  then have "a \<noteq> CHR 0x5C" by auto
  then have "tt_regex (a # x @ t) = None"
    by (cases "tt_regex (a # x @ t)") (auto dest: tt_regex_hd)
  with Cons show ?case by simp
qed

lemma separate_plain_Some:
  "tt_regex s = Some (m, rest) \<Longrightarrow> separate_plain s \<Longrightarrow> plain (group1 m)"
  by (cases s) (simp_all add: tt_regex_def marker_def)

lemma separate_plain_None:
  "tt_regex (c # cs) = None \<Longrightarrow> separate_plain (c # cs) \<Longrightarrow> separate_plain cs"
  by simp

lemma sub_prefix_copied:
  assumes "regex_sub tt_replace cs = w @ u" and "\<not> continues w cs" and "separate_plain cs"
    and "w = [] \<or> last w = CHR ''{''"
  shows "\<exists>cs'. cs = w @ cs' \<and> regex_sub tt_replace cs' = u"
  using assms
proof (induction w arbitrary: cs)
  case Nil
  then show ?case by simp
next
  case (Cons a w)
  from Cons.prems(1) obtain c cs0 where cs: "cs = c # cs0" by (cases cs) auto
  have n: "tt_regex cs = None"
  proof (cases "tt_regex cs")
    case None
    then show ?thesis .
  next
    case (Some mr)
    obtain m rest where mr: "mr = (m, rest)" by (cases mr)
    with Some have t: "tt_regex cs = Some (m, rest)" by simp
    from separate_plain_Some [OF t Cons.prems(3)] have p: "plain (group1 m)" .
    have g: "tt_replace m = group1 m" by (simp add: tt_replace_def)
    from t cs Cons.prems(1) have "tt_replace m @ regex_sub tt_replace rest = (a # w) @ u"
      by simp
    with g have e: "group1 m @ regex_sub tt_replace rest = (a # w) @ u" by simp
    from t Cons.prems(2) have nt: "take (length (group1 m)) (a # w) \<noteq> group1 m" by simp
    from e obtain us where
      "(group1 m = (a # w) @ us \<and> us @ regex_sub tt_replace rest = u) \<or>
       (group1 m @ us = a # w \<and> regex_sub tt_replace rest = us @ u)"
      unfolding append_eq_append_conv2 by blast
    then show ?thesis
    proof
      assume "group1 m = (a # w) @ us \<and> us @ regex_sub tt_replace rest = u"
      then have "last (a # w) \<in> set (group1 m)" by (metis last_in_set list.distinct(1)
            set_append UnCI)
      with Cons.prems(4) have "CHR ''{'' \<in> set (group1 m)" by simp
      with plain_no_open [OF p] show ?thesis by simp
    next
      assume "group1 m @ us = a # w \<and> regex_sub tt_replace rest = us @ u"
      then have "take (length (group1 m)) (a # w) = group1 m" by (metis append_eq_conv_conj)
      with nt show ?thesis by simp
    qed
  qed
  with cs Cons.prems(1) have c: "c = a" and r: "regex_sub tt_replace cs0 = w @ u" by simp_all
  from Cons.prems(2) n cs c have nc: "\<not> continues w cs0" by simp
  from Cons.prems(3) n cs have sp: "separate_plain cs0" by simp
  from Cons.prems(4) have lw: "w = [] \<or> last w = CHR ''{''" by (cases w) auto
  from Cons.IH [OF r nc sp lw] obtain cs'
    where "cs0 = w @ cs'" "regex_sub tt_replace cs' = u" by blast
  with cs c have "cs = (a # w) @ cs' \<and> regex_sub tt_replace cs' = u" by simp
  then show ?case ..
qed

lemma tt_regex_marker_None:
  assumes "tt_regex (marker @ r) = None"
  shows "r = [] \<or> hd r = CHR ''}'' \<or> CHR ''}'' \<notin> set r"
proof (rule ccontr)
  assume "\<not> (r = [] \<or> hd r = CHR ''}'' \<or> CHR ''}'' \<notin> set r)"
  then have ne: "r \<noteq> []" and hd: "hd r \<noteq> CHR ''}''" and cl: "CHR ''}'' \<in> set r" by simp_all
  from split_list_first [OF cl] obtain x rest
    where r: "r = x @ CHR ''}'' # rest" and x: "CHR ''}'' \<notin> set x" by blast
  from r hd have "x \<noteq> []" by (cases x) auto
  with x r have "tt_regex (marker @ r) =
      Some (\<lparr>group0 = marker @ x @ ''}'', group1 = x\<rparr>, rest)"
    by (auto simp: tt_regex_Some)
  with assms show False by simp
qed

lemma no_match_at_copied_backslash:
  assumes n: "tt_regex (CHR 0x5C # cs) = None" and d: "\<not> continues (tl marker) cs"
    and sp: "separate_plain cs"
  shows "tt_regex (CHR 0x5C # regex_sub tt_replace cs) = None"
proof (cases "tt_regex (CHR 0x5C # regex_sub tt_replace cs)")
  case None
  then show ?thesis .
next
  case (Some mr)
  obtain m rest where "mr = (m, rest)" by (cases mr)
  with Some obtain x where x: "x \<noteq> []" "CHR ''}'' \<notin> set x"
    and e: "CHR 0x5C # regex_sub tt_replace cs = marker @ x @ CHR ''}'' # rest"
    by (auto simp: tt_regex_Some)
  from e have o: "regex_sub tt_replace cs = tl marker @ (x @ CHR ''}'' # rest)"
    by (simp add: marker_def)
  have l: "tl marker = [] \<or> last (tl marker) = CHR ''{''" by (simp add: marker_def)
  from sub_prefix_copied [OF o d sp l] obtain cs'
    where cs: "cs = tl marker @ cs'"
      and u: "regex_sub tt_replace cs' = x @ CHR ''}'' # rest" by blast
  from cs have "CHR 0x5C # cs = marker @ cs'" by (simp add: marker_def)
  with n have "tt_regex (marker @ cs') = None" by simp
  from tt_regex_marker_None [OF this]
  consider "cs' = []" | "cs' \<noteq> []" "hd cs' = CHR ''}''" | "CHR ''}'' \<notin> set cs'" by blast
  then have False
  proof cases
    case 1
    with u show False by simp
  next
    case 2
    then obtain t where "cs' = CHR ''}'' # t" by (cases cs') auto
    then have "regex_sub tt_replace cs' = CHR ''}'' # regex_sub tt_replace t"
      by (simp add: sub_cons_other del: regex_sub.simps)
    with u have "hd x = CHR ''}''" using x(1) by (cases x) auto
    with x show False by (cases x) auto
  next
    case 3
    then have "regex_sub tt_replace cs' = cs'" by (rule sub_no_close)
    with u 3 show False by simp
  qed
  then show ?thesis ..
qed

lemma separate_plain_output_clean:
  "separate_plain s \<Longrightarrow> \<not> tt_search (regex_sub tt_replace s)"
proof (induction s rule: separate_plain.induct)
  case 1
  then show ?case by simp
next
  case (2 c cs)
  show ?case
  proof (cases "tt_regex (c # cs)")
    case None
    with "2.prems" have sp: "separate_plain cs"
      and d: "c = CHR 0x5C \<longrightarrow> \<not> continues (tl marker) cs" by simp_all
    from "2.IH"(1) [OF None sp] have ih: "\<not> tt_search (regex_sub tt_replace cs)" .
    have "tt_regex (c # regex_sub tt_replace cs) = None"
    proof (cases "c = CHR 0x5C")
      case True
      with None d sp show ?thesis by (simp add: no_match_at_copied_backslash)
    next
      case False
      then show ?thesis
        by (cases "tt_regex (c # regex_sub tt_replace cs)") (auto dest: tt_regex_hd)
    qed
    with ih None show ?thesis by simp
  next
    case (Some mr)
    obtain m rest where mr: "mr = (m, rest)" by (cases mr)
    from Some mr have a: "tt_regex (c # cs) = Some (m, rest)" by simp
    with "2.prems" have p: "plain (group1 m)" and sp: "separate_plain rest" by simp_all
    from "2.IH"(2) [OF a refl sp] have "\<not> tt_search (regex_sub tt_replace rest)" .
    with plain_no_backslash [OF p]
    have "\<not> tt_search (group1 m @ regex_sub tt_replace rest)"
      by (simp add: search_append_plain)
    moreover have "tt_replace m = group1 m" by (simp add: tt_replace_def)
    ultimately show ?thesis using a by simp
  qed
qed

lemma separate_plain_captures:
  "separate_plain s \<Longrightarrow> list_all plain (map (\<lambda>(a, b, x). x) (tt_finditer pos s))"
proof (induction pos s rule: tt_finditer.induct)
  case (1 pos)
  then show ?case by simp
next
  case (2 pos c cs)
  show ?case
  proof (cases "tt_regex (c # cs)")
    case None
    with "2.prems" have "separate_plain cs" by simp
    from "2.IH"(1) [OF None this] None show ?thesis by simp
  next
    case (Some mr)
    obtain m rest where mr: "mr = (m, rest)" by (cases mr)
    from Some mr have a: "tt_regex (c # cs) = Some (m, rest)" by simp
    with "2.prems" have p: "plain (group1 m)" and sp: "separate_plain rest" by simp_all
    from "2.IH"(2) [OF a refl sp] p a show ?thesis by simp
  qed
qed

lemma search_finditer: "tt_search s \<Longrightarrow> tt_finditer pos s \<noteq> []"
  by (induction s arbitrary: pos) (auto split: option.splits)

lemma sub_fixed_iff: "regex_sub tt_replace t = t \<longleftrightarrow> \<not> tt_search t"
proof
  assume e: "regex_sub tt_replace t = t"
  show "\<not> tt_search t"
  proof
    assume "tt_search t"
    then have "tt_finditer 0 t \<noteq> []" by (rule search_finditer)
    then have "0 < length (tt_finditer 0 t)" by simp
    with length_sub_finditer [of t 0] e show False by simp
  qed
next
  assume "\<not> tt_search t"
  then show "regex_sub tt_replace t = t" by (rule sub_no_match)
qed

section \<open>The run of the script\<close>

text \<open>
  The script reads its two arguments, reads the whole input file, substitutes, and
  writes the whole result:
  \<^verbatim>\<open>
  in_filename, out_filename = sys.argv[1:]
  with open(in_filename, 'r') as in_file:
      orig = in_file.read()
  replaced = tt_regex.sub(tt_replace, orig)
  with open(out_filename, 'w') as out_file:
      out_file.write(replaced)
  \<close>
  A path is not a file: \<open>resolve\<close> is the operating system's path resolution, which
  either fails or gives the file that the path names or would create. Two spellings of
  a path, a symbolic link and its target, and two hard links resolve to the same file.
  \<open>files\<close> gives the files that exist: a directory, or a regular file with whether the
  process may read it, whether it may write it, and its bytes. \<open>create_errno\<close> tells
  why a file that does not exist cannot be created (its directory is missing or
  protected), and \<open>room\<close> is the number of bytes the device still takes, if it is
  bounded.

  The files are opened in text mode. \<open>decode\<close> is what the interpreter's text layer
  makes of the bytes it reads (the host's default encoding and the newline translation
  of text mode) where they can be decoded, and \<open>encode\<close> gives the bytes it writes for a
  text. Neither is fixed by the script.

  \<open>log\<close> records the operations on files in the order the system performs them. An
  exception that nothing catches ends the process with exit status 1.
\<close>

datatype errno = ENOENT | EISDIR | EACCES | ENOSPC | EBADF

datatype error =
  ValueError | OSError errno "string option" | UnicodeDecodeError | UnicodeEncodeError

type_synonym file_id = nat

datatype node = Directory | File bool bool string

datatype event = Read file_id | Truncate file_id | Write file_id

record world =
  resolve :: "string \<Rightarrow> errno + file_id"
  files :: "file_id \<rightharpoonup> node"
  create_errno :: "file_id \<Rightarrow> errno option"
  room :: "nat option"
  decode :: "string \<Rightarrow> string option"
  encode :: "string \<Rightarrow> string option"
  log :: "event list"

record outcome =
  exit_code :: nat
  raised :: "error option"
  final :: world

text \<open>\<^verbatim>\<open>open(p, 'r')\<close>: the file that the path names, when it is a readable file.\<close>

definition open_r :: "world \<Rightarrow> string \<Rightarrow> error + file_id" where
  "open_r w p =
     (case resolve w p of
        Inl e \<Rightarrow> Inl (OSError e (Some p))
      | Inr f \<Rightarrow>
          (case files w f of
             None \<Rightarrow> Inl (OSError ENOENT (Some p))
           | Some Directory \<Rightarrow> Inl (OSError EISDIR (Some p))
           | Some (File r wr c) \<Rightarrow> if r then Inr f else Inl (OSError EACCES (Some p))))"

text \<open>\<^verbatim>\<open>in_file.read()\<close>: all the bytes of the open file, decoded.\<close>

definition read_text :: "world \<Rightarrow> file_id \<Rightarrow> (error + string) \<times> world" where
  "read_text w f =
     (case files w f of
        Some (File r wr c) \<Rightarrow>
          (case decode w c of
             None \<Rightarrow> (Inl UnicodeDecodeError, w\<lparr>log := log w @ [Read f]\<rparr>)
           | Some t \<Rightarrow> (Inr t, w\<lparr>log := log w @ [Read f]\<rparr>))
      | Some Directory \<Rightarrow> (Inl (OSError EBADF None), w)
      | None \<Rightarrow> (Inl (OSError EBADF None), w))"

text \<open>
  \<^verbatim>\<open>open(p, 'w')\<close>: the file that the path names is created if it does not exist,
  and emptied if it does, which gives its bytes back to the device.
\<close>

definition open_w :: "world \<Rightarrow> string \<Rightarrow> error + (file_id \<times> world)" where
  "open_w w p =
     (case resolve w p of
        Inl e \<Rightarrow> Inl (OSError e (Some p))
      | Inr f \<Rightarrow>
          (case files w f of
             None \<Rightarrow>
               (case create_errno w f of
                  Some e \<Rightarrow> Inl (OSError e (Some p))
                | None \<Rightarrow>
                    Inr (f, w\<lparr>files := (files w)(f \<mapsto> File True True []),
                              log := log w @ [Truncate f]\<rparr>))
           | Some Directory \<Rightarrow> Inl (OSError EISDIR (Some p))
           | Some (File r wr c) \<Rightarrow>
               if wr
               then Inr (f, w\<lparr>files := (files w)(f \<mapsto> File r wr []),
                              room := map_option (\<lambda>n. n + length c) (room w),
                              log := log w @ [Truncate f]\<rparr>)
               else Inl (OSError EACCES (Some p))))"

text \<open>
  \<^verbatim>\<open>out_file.write(text)\<close> and the close at the end of the \<^verbatim>\<open>with\<close> block. A
  text that cannot be encoded raises before any byte is written. When the device has
  no room for all the bytes, those that fit stay in the file and the error, which
  carries no file name, is raised.
\<close>

definition write_text :: "world \<Rightarrow> file_id \<Rightarrow> string \<Rightarrow> error option \<times> world" where
  "write_text w f t =
     (case files w f of
        Some (File r wr c) \<Rightarrow>
          (case encode w t of
             None \<Rightarrow> (Some UnicodeEncodeError, w)
           | Some d \<Rightarrow>
               (case room w of
                  None \<Rightarrow>
                    (None, w\<lparr>files := (files w)(f \<mapsto> File r wr (c @ d)),
                             log := log w @ [Write f]\<rparr>)
                | Some n \<Rightarrow>
                    if length d \<le> n
                    then (None, w\<lparr>files := (files w)(f \<mapsto> File r wr (c @ d)),
                                  room := Some (n - length d),
                                  log := log w @ [Write f]\<rparr>)
                    else (Some (OSError ENOSPC None),
                          w\<lparr>files := (files w)(f \<mapsto> File r wr (c @ take n d)),
                            room := Some 0,
                            log := log w @ [Write f]\<rparr>)))
      | Some Directory \<Rightarrow> (Some (OSError EBADF None), w)
      | None \<Rightarrow> (Some (OSError EBADF None), w))"

definition uncaught :: "error \<Rightarrow> world \<Rightarrow> outcome" where
  "uncaught e w = \<lparr>exit_code = 1, raised = Some e, final = w\<rparr>"

text \<open>
  The whole script on the argument vector \<open>argv\<close> (\<^verbatim>\<open>sys.argv\<close>, the script's name
  first). The unpacking of \<^verbatim>\<open>sys.argv[1:]\<close> raises \<^verbatim>\<open>ValueError\<close> unless there are
  exactly two arguments.
\<close>

definition remove_tt :: "string list \<Rightarrow> world \<Rightarrow> outcome" where
  "remove_tt argv w =
     (case drop 1 argv of
        [in_filename, out_filename] \<Rightarrow>
          (case open_r w in_filename of
             Inl e \<Rightarrow> uncaught e w
           | Inr in_file \<Rightarrow>
               (case read_text w in_file of
                  (Inl e, w1) \<Rightarrow> uncaught e w1
                | (Inr orig, w1) \<Rightarrow>
                    (case open_w w1 out_filename of
                       Inl e \<Rightarrow> uncaught e w1
                     | Inr (out_file, w2) \<Rightarrow>
                         (case write_text w2 out_file (replaced orig) of
                            (Some e, w3) \<Rightarrow> uncaught e w3
                          | (None, w3) \<Rightarrow> \<lparr>exit_code = 0, raised = None, final = w3\<rparr>))))
      | _ \<Rightarrow> uncaught ValueError w)"

text \<open>The path names no file: a part of it is missing, or the file itself.\<close>

definition missing :: "world \<Rightarrow> string \<Rightarrow> bool" where
  "missing w p = (case resolve w p of Inl e \<Rightarrow> e = ENOENT | Inr f \<Rightarrow> files w f = None)"

text \<open>The bytes of the regular file that a path names.\<close>

definition bytes_of :: "world \<Rightarrow> string \<Rightarrow> string option" where
  "bytes_of w p =
     (case resolve w p of
        Inl e \<Rightarrow> None
      | Inr f \<Rightarrow> (case files w f of Some (File r wr c) \<Rightarrow> Some c | Some Directory \<Rightarrow> None
                  | None \<Rightarrow> None))"

text \<open>
  A file system with one regular file, holding \<^verbatim>\<open>\texttt{a}\<close>, that the paths
  \<^verbatim>\<open>f.tex\<close> and \<^verbatim>\<open>./f.tex\<close> name. The paths \<^verbatim>\<open>g.txt\<close> and \<^verbatim>\<open>missing.tex\<close>
  name files that do not exist, and no other path resolves. The text layer passes
  bytes through.
\<close>

definition example_world :: world where
  "example_world =
     \<lparr>resolve = (\<lambda>p. if p = ''f.tex'' \<or> p = ''./f.tex'' then Inr 0
                     else if p = ''g.txt'' then Inr 1
                     else if p = ''missing.tex'' then Inr 2 else Inl ENOENT),
      files = [0 \<mapsto> File True True (marker @ ''a}'')],
      create_errno = (\<lambda>f. None), room = None,
      decode = Some, encode = Some, log = []\<rparr>"

lemma missing_open_r: "missing w p \<Longrightarrow> open_r w p = Inl (OSError ENOENT (Some p))"
  by (auto simp: missing_def open_r_def split: sum.splits)

lemma open_r_Inr:
  "open_r w p = Inr f \<Longrightarrow> resolve w p = Inr f \<and> (\<exists>wr c. files w f = Some (File True wr c))"
  by (auto simp: open_r_def split: sum.splits option.splits node.splits if_splits)

lemma read_text_Inr:
  "read_text w f = (Inr t, w1) \<Longrightarrow>
     w1 = w\<lparr>log := log w @ [Read f]\<rparr> \<and>
     (\<exists>r wr c. files w f = Some (File r wr c) \<and> decode w c = Some t)"
  by (auto simp: read_text_def split: option.splits node.splits)

lemma read_text_Inl:
  "read_text w f = (Inl e, w1) \<Longrightarrow> w1 = w \<or> w1 = w\<lparr>log := log w @ [Read f]\<rparr>"
  by (auto simp: read_text_def split: option.splits node.splits)

lemma open_w_Inr:
  "open_w w p = Inr (f, w1) \<Longrightarrow>
     resolve w p = Inr f \<and> resolve w1 = resolve w \<and> decode w1 = decode w \<and>
     encode w1 = encode w \<and> log w1 = log w @ [Truncate f] \<and>
     (\<forall>g. g \<noteq> f \<longrightarrow> files w1 g = files w g) \<and>
     (\<exists>r wr. files w1 f = Some (File r wr []))"
  by (auto simp: open_w_def split: sum.splits option.splits node.splits if_splits)

lemma write_text_frame:
  "write_text w f t = (x, w1) \<Longrightarrow>
     resolve w1 = resolve w \<and> (\<forall>g. g \<noteq> f \<longrightarrow> files w1 g = files w g) \<and>
     (log w1 = log w \<or> log w1 = log w @ [Write f])"
  by (auto simp: write_text_def split: option.splits node.splits if_splits)

lemma write_text_None:
  "write_text w f t = (None, w1) \<Longrightarrow> files w f = Some (File r wr c) \<Longrightarrow>
     (\<exists>d. encode w t = Some d \<and> files w1 f = Some (File r wr (c @ d))) \<and>
     log w1 = log w @ [Write f]"
  by (auto simp: write_text_def split: option.splits node.splits if_splits)


lemma remove_tt_success:
  assumes "drop 1 argv = [pin, pout]" and "exit_code (remove_tt argv w) = 0"
  obtains fi orig w1 fo w2 w3 where "open_r w pin = Inr fi"
    and "read_text w fi = (Inr orig, w1)" and "open_w w1 pout = Inr (fo, w2)"
    and "write_text w2 fo (replaced orig) = (None, w3)" and "final (remove_tt argv w) = w3"
  using assms
  by (auto simp: remove_tt_def uncaught_def split: sum.splits prod.splits option.splits)

lemma remove_tt_cases:
  assumes "drop 1 argv = [pin, pout]"
  shows "final (remove_tt argv w) = w \<or>
         (\<exists>fi. open_r w pin = Inr fi \<and> final (remove_tt argv w) = w\<lparr>log := log w @ [Read fi]\<rparr>) \<or>
         (\<exists>fi orig fo w2 x w3. open_r w pin = Inr fi \<and>
            open_w (w\<lparr>log := log w @ [Read fi]\<rparr>) pout = Inr (fo, w2) \<and>
            write_text w2 fo (replaced orig) = (x, w3) \<and> final (remove_tt argv w) = w3)"
proof (cases "open_r w pin")
  case (Inl e)
  with assms show ?thesis by (simp add: remove_tt_def uncaught_def)
next
  case fi: (Inr fi)
  obtain x w1 where rd: "read_text w fi = (x, w1)" by (cases "read_text w fi")
  show ?thesis
  proof (cases x)
    case (Inl e)
    with rd have "w1 = w \<or> w1 = w\<lparr>log := log w @ [Read fi]\<rparr>" by (simp add: read_text_Inl)
    with Inl rd fi assms show ?thesis by (auto simp: remove_tt_def uncaught_def)
  next
    case (Inr orig)
    with rd have w1: "w1 = w\<lparr>log := log w @ [Read fi]\<rparr>" by (simp add: read_text_Inr)
    show ?thesis
    proof (cases "open_w w1 pout")
      case (Inl e)
      with Inr rd fi w1 assms show ?thesis by (simp add: remove_tt_def uncaught_def)
    next
      case ow: (Inr fw)
      obtain fo w2 where fw: "fw = (fo, w2)" by (cases fw)
      obtain y w3 where wt: "write_text w2 fo (replaced orig) = (y, w3)"
        by (cases "write_text w2 fo (replaced orig)")
      have "final (remove_tt argv w) = w3"
        using assms fi rd Inr ow fw wt by (cases y) (simp_all add: remove_tt_def uncaught_def)
      with fi ow fw wt w1 show ?thesis by blast
    qed
  qed
qed


lemma remove_tt_resolve:
  assumes "drop 1 argv = [pin, pout]"
  shows "resolve (final (remove_tt argv w)) = resolve w"
  using remove_tt_cases [OF assms, of w]
  by (auto dest!: open_w_Inr write_text_frame)

lemma remove_tt_frame:
  assumes "drop 1 argv = [pin, pout]" and "resolve w pout \<noteq> Inr f"
  shows "files (final (remove_tt argv w)) f = files w f"
proof -
  from remove_tt_cases [OF assms(1), of w]
  consider "final (remove_tt argv w) = w"
    | fi where "final (remove_tt argv w) = w\<lparr>log := log w @ [Read fi]\<rparr>"
    | fi orig fo w2 x w3 where "open_w (w\<lparr>log := log w @ [Read fi]\<rparr>) pout = Inr (fo, w2)"
      "write_text w2 fo (replaced orig) = (x, w3)" "final (remove_tt argv w) = w3"
    by blast
  then show ?thesis
  proof cases
    case 1
    then show ?thesis by simp
  next
    case 2
    then show ?thesis by simp
  next
    case 3
    from open_w_Inr [OF 3(1)] have fo: "resolve w pout = Inr fo"
      and fr: "\<forall>g. g \<noteq> fo \<longrightarrow> files w2 g = files w g" by simp_all
    from fo assms(2) have ne: "f \<noteq> fo" by auto
    from write_text_frame [OF 3(2)] ne have "files w3 f = files w2 f" by simp
    with fr ne 3(3) show ?thesis by simp
  qed
qed

lemma remove_tt_log:
  assumes "drop 1 argv = [pin, pout]"
  shows "log (final (remove_tt argv w)) = log w \<or>
         (\<exists>fi. resolve w pin = Inr fi \<and>
            (log (final (remove_tt argv w)) = log w @ [Read fi] \<or>
             (\<exists>fo. resolve w pout = Inr fo \<and>
                (log (final (remove_tt argv w)) = log w @ [Read fi, Truncate fo] \<or>
                 log (final (remove_tt argv w)) = log w @ [Read fi, Truncate fo, Write fo]))))"
proof -
  from remove_tt_cases [OF assms(1), of w]
  consider "final (remove_tt argv w) = w"
    | fi where "open_r w pin = Inr fi" "final (remove_tt argv w) = w\<lparr>log := log w @ [Read fi]\<rparr>"
    | fi orig fo w2 x w3 where "open_r w pin = Inr fi"
      "open_w (w\<lparr>log := log w @ [Read fi]\<rparr>) pout = Inr (fo, w2)"
      "write_text w2 fo (replaced orig) = (x, w3)" "final (remove_tt argv w) = w3"
    by blast
  then show ?thesis
  proof cases
    case 1
    then show ?thesis by simp
  next
    case 2
    from open_r_Inr [OF 2(1)] 2(2) show ?thesis by simp
  next
    case 3
    from open_r_Inr [OF 3(1)] have fi: "resolve w pin = Inr fi" by simp
    from open_w_Inr [OF 3(2)] have fo: "resolve w pout = Inr fo"
      and l2: "log w2 = log w @ [Read fi, Truncate fo]" by simp_all
    from write_text_frame [OF 3(3)]
    have "log w3 = log w2 \<or> log w3 = log w2 @ [Write fo]" by simp
    with l2 3(4) fi fo show ?thesis by auto
  qed
qed

lemma remove_tt_output:
  assumes "drop 1 argv = [pin, pout]" and "exit_code (remove_tt argv w) = 0"
  shows "(\<exists>fi fo. resolve w pin = Inr fi \<and> resolve w pout = Inr fo \<and>
            log (final (remove_tt argv w)) = log w @ [Read fi, Truncate fo, Write fo]) \<and>
         bytes_of (final (remove_tt argv w)) pout \<noteq> None \<and>
         bytes_of (final (remove_tt argv w)) pout =
           Option.bind (Option.bind (bytes_of w pin) (decode w))
             (\<lambda>t. encode w (replaced t))"
proof -
  from remove_tt_success [OF assms] obtain fi orig w1 fo w2 w3
    where o: "open_r w pin = Inr fi" and r: "read_text w fi = (Inr orig, w1)"
      and ow: "open_w w1 pout = Inr (fo, w2)"
      and wt: "write_text w2 fo (replaced orig) = (None, w3)"
      and f: "final (remove_tt argv w) = w3" by blast
  from open_r_Inr [OF o] have fi: "resolve w pin = Inr fi" by simp
  from read_text_Inr [OF r] obtain r0 wr0 c0
    where w1: "w1 = w\<lparr>log := log w @ [Read fi]\<rparr>"
      and c0: "files w fi = Some (File r0 wr0 c0)" and d0: "decode w c0 = Some orig" by blast
  from open_w_Inr [OF ow] w1 obtain r1 wr1
    where fo: "resolve w pout = Inr fo" and en: "encode w2 = encode w"
      and l2: "log w2 = log w @ [Read fi, Truncate fo]"
      and e2: "files w2 fo = Some (File r1 wr1 [])" by auto
  from write_text_None [OF wt e2] en obtain d
    where d: "encode w (replaced orig) = Some d" and f3: "files w3 fo = Some (File r1 wr1 d)"
      and l3: "log w3 = log w2 @ [Write fo]" by auto
  have rs: "resolve w3 = resolve w"
    using remove_tt_resolve [OF assms(1), of w] f by simp
  have bi: "bytes_of w pin = Some c0" using fi c0 by (simp add: bytes_of_def)
  have bo: "bytes_of w3 pout = Some d" using rs fo f3 by (simp add: bytes_of_def)
  from l2 l3 have "log w3 = log w @ [Read fi, Truncate fo, Write fo]" by simp
  with fi fo f bi bo d0 d show ?thesis by simp
qed

section \<open>The specification's statements\<close>

text \<open>
  C2. On the nested input \<^verbatim>\<open>\texttt{a\texttt{b}c}\<close> the match at offset 0 ends at
  the first closing brace: its capture is \<^verbatim>\<open>a\texttt{b\<close>, the inner marker is
  not cleaned, and the remaining \<^verbatim>\<open>c}\<close> is copied as it is. The output is
  \<^verbatim>\<open>a\texttt{bc}\<close>.
\<close>

theorem nested_markup_stops_at_first_close:
  "replaced (marker @ ''a'' @ marker @ ''b}c}'') = ''a'' @ marker @ ''bc}'' \<and>
   tt_regex (marker @ ''a'' @ marker @ ''b}c}'') =
     Some (\<lparr>group0 = marker @ ''a'' @ marker @ ''b}'', group1 = ''a'' @ marker @ ''b''\<rparr>, ''c}'') \<and>
   replaced ''c}'' = ''c}''"
  by (simp add: replaced_def marker_def tt_regex_def tt_replace_def not_close_def)

text \<open>
  C3. A text in which the pattern matches nowhere (\<open>tt_search\<close> finds nothing) is
  returned as it is; so is \<^verbatim>\<open>No markup here.\<close>, in which it matches nowhere.
\<close>

theorem identity_without_match:
  "(\<not> tt_search s \<longrightarrow> replaced s = s) \<and>
   (\<not> tt_search ''No markup here.'' \<and> replaced ''No markup here.'' = ''No markup here.'')"
proof -
  have "\<not> tt_search s \<longrightarrow> replaced s = s" by (simp add: replaced_def sub_no_match)
  moreover have "\<not> tt_search ''No markup here.''" by (simp add: eval_defs)
  moreover have "replaced ''No markup here.'' = ''No markup here.''" by (simp add: eval_defs)
  ultimately show ?thesis by simp
qed

theorem identity_without_match_witness:
  "\<not> tt_search (''No '' @ marker @ '' here'') \<and>
   replaced (''No '' @ marker @ '' here'') = ''No '' @ marker @ '' here''"
proof -
  have h: "\<not> tt_search (''No '' @ marker @ '' here'')" by (simp add: eval_defs)
  with identity_without_match [of "''No '' @ marker @ '' here''"] show ?thesis by blast
qed

text \<open>
  C6. When no closing brace follows a marker up to the end of the text, the marker and
  all the text after it are copied to the output as they are, and no match of the scan
  takes part of them: the matches are those of the text before the marker, and they
  end at or before the marker's offset.
\<close>

theorem unclosed_marker_copied:
  "CHR ''}'' \<notin> set rest \<Longrightarrow>
     replaced (pre @ marker @ rest) = replaced pre @ marker @ rest \<and>
     tt_finditer 0 (pre @ marker @ rest) = tt_finditer 0 pre \<and>
     ordered_spans 0 (length pre) (tt_finditer 0 (pre @ marker @ rest))"
proof -
  assume "CHR ''}'' \<notin> set rest"
  then have n: "CHR ''}'' \<notin> set (marker @ rest)" by (simp add: marker_def)
  have "regex_sub tt_replace (pre @ (marker @ rest)) = regex_sub tt_replace pre @ (marker @ rest)"
    using n by (rule sub_append_no_close)
  moreover have "tt_finditer 0 (pre @ (marker @ rest)) = tt_finditer 0 pre"
    using n by (rule finditer_append_no_close)
  moreover have "ordered_spans 0 (length pre) (tt_finditer 0 pre)"
    using ordered_spans_finditer [of 0 pre] by simp
  ultimately show ?thesis by (simp add: replaced_def)
qed

theorem unclosed_marker_copied_witness:
  "CHR ''}'' \<notin> set ''unclosed'' \<and>
   replaced (''A '' @ marker @ ''b} '' @ marker @ ''unclosed'') = ''A b '' @ marker @ ''unclosed'' \<and>
   tt_finditer 0 (''A '' @ marker @ ''b} '' @ marker @ ''unclosed'') = [(2, 12, ''b'')]"
proof -
  have h: "CHR ''}'' \<notin> set ''unclosed''" by simp
  have "replaced (''A '' @ marker @ ''b} '') = ''A b ''" by (simp add: eval_defs)
  moreover have "tt_finditer 0 (''A '' @ marker @ ''b} '') = [(2, 12, ''b'')]"
    by (simp add: eval_defs)
  ultimately show ?thesis
    using h unclosed_marker_copied [OF h, of "''A '' @ marker @ ''b} ''"] by simp
qed

text \<open>
  C9, amended. The pattern does not match at a marker that the closing brace follows at once,
  since \<^verbatim>\<open>+\<close> asks for one character in the braces. The text \<^verbatim>\<open>\texttt{}\<close> alone
  is returned as it is, and wherever the scan reaches such an occurrence (it does not
  lie inside an earlier match) its nine characters are copied to the output.
\<close>

theorem empty_capture_not_replaced:
  "tt_regex (marker @ ''}'' @ post) = None \<and>
   replaced (marker @ ''}'') = marker @ ''}'' \<and>
   (scan_reaches (pre @ marker @ ''}'' @ post) (length pre) \<longrightarrow>
      replaced (pre @ marker @ ''}'' @ post) = replaced pre @ marker @ ''}'' @ replaced post)"
proof -
  have a: "tt_regex (marker @ ''}'' @ post) = None"
    using tt_regex_empty_capture [of post] by simp
  have b: "replaced (marker @ ''}'') = marker @ ''}''"
    using sub_empty_capture [of tt_replace "[]"] by (simp add: replaced_def)
  have c: "replaced (pre @ marker @ ''}'' @ post) = replaced pre @ marker @ ''}'' @ replaced post"
    if "scan_reaches (pre @ marker @ ''}'' @ post) (length pre)"
    using sub_split [OF that, of tt_replace] sub_empty_capture [of tt_replace post]
    by (simp add: replaced_def)
  from a b c show ?thesis by blast
qed

theorem empty_capture_not_replaced_witness:
  "scan_reaches (''see '' @ marker @ ''x} '' @ marker @ ''}'' @ ''.'') (length (''see '' @ marker @ ''x} '')) \<and>
   replaced (''see '' @ marker @ ''x} '' @ marker @ ''}'' @ ''.'') = ''see x '' @ marker @ ''}.''"
proof -
  have h: "scan_reaches ((''see '' @ marker @ ''x} '') @ marker @ ''}'' @ ''.'') (length (''see '' @ marker @ ''x} ''))"
    by (simp add: eval_defs)
  have "replaced (''see '' @ marker @ ''x} '') = ''see x ''" by (simp add: eval_defs)
  moreover have "replaced ''.'' = ''.''" by (simp add: eval_defs)
  ultimately show ?thesis
    using h empty_capture_not_replaced [of "''.''" "''see '' @ marker @ ''x} ''"] by simp
qed

text \<open>
  C9 as stated has no condition on where the occurrence stands. Inside an earlier
  match it goes with that match: \<^verbatim>\<open>\texttt{a\texttt{}\<close> becomes \<^verbatim>\<open>a\texttt{\<close>,
  where the closing brace is gone.
\<close>

theorem swallowed_empty_occurrence_counterexample:
  "replaced (marker @ ''a'' @ marker @ ''}'') = ''a'' @ marker \<and>
   CHR ''}'' \<notin> set (replaced (marker @ ''a'' @ marker @ ''}'')) \<and>
   \<not> scan_reaches (marker @ ''a'' @ marker @ ''}'') (length (marker @ ''a''))"
  by (simp add: eval_defs)

text \<open>
  C10. The output is shorter than the input by nine characters for each match (the
  eight of the marker and the closing brace), so it is never longer than the input.
\<close>

theorem output_length:
  "length (replaced s) + 9 * length (tt_finditer 0 s) = length s \<and>
   length (replaced s) \<le> length s"
proof -
  have "length (replaced s) + 9 * length (tt_finditer 0 s) = length s"
    by (simp only: replaced_def length_sub_finditer)
  then show ?thesis by simp
qed

text \<open>
  C1, amended. Let the text hold an occurrence \<^verbatim>\<open>\texttt{X}\<close> where \<open>X\<close> is not empty
  and has no closing brace, at an offset that the scan reaches (the occurrence does not
  lie inside an earlier match). Then the output is the output of the text before it,
  then \<open>X\<close>, then the output of the text after it; when the pattern matches nowhere in
  the text before and nowhere in the text after, exactly the occurrence is replaced by
  \<open>X\<close> and every other character is unchanged.
\<close>

theorem occurrence_replaced_by_capture:
  assumes "x \<noteq> []" and "CHR ''}'' \<notin> set x"
    and "scan_reaches (pre @ marker @ x @ ''}'' @ post) (length pre)"
  shows "replaced (pre @ marker @ x @ ''}'' @ post) = replaced pre @ x @ replaced post \<and>
         (\<not> tt_search pre \<and> \<not> tt_search post \<longrightarrow>
            replaced (pre @ marker @ x @ ''}'' @ post) = pre @ x @ post)"
proof -
  have "replaced (pre @ marker @ x @ ''}'' @ post) =
        replaced pre @ replaced (marker @ x @ ''}'' @ post)"
    using sub_split [OF assms(3), of tt_replace] by (simp add: replaced_def)
  also have "replaced (marker @ x @ ''}'' @ post) = x @ replaced post"
    using sub_occurrence [OF assms(1,2), of tt_replace post]
    by (simp add: replaced_def tt_replace_def)
  finally have e: "replaced (pre @ marker @ x @ ''}'' @ post) = replaced pre @ x @ replaced post" .
  then show ?thesis by (simp add: replaced_def sub_no_match)
qed

theorem occurrence_replaced_by_capture_witness:
  "''foo'' \<noteq> [] \<and> CHR ''}'' \<notin> set ''foo'' \<and>
   scan_reaches (''Use '' @ marker @ ''foo'' @ ''}'' @ '' here.'') (length ''Use '') \<and>
   \<not> tt_search ''Use '' \<and> \<not> tt_search '' here.'' \<and>
   replaced (''Use '' @ marker @ ''foo'' @ ''}'' @ '' here.'') = ''Use foo here.''"
proof -
  have h1: "''foo'' \<noteq> []" and h2: "CHR ''}'' \<notin> set ''foo''" by simp_all
  have h3: "scan_reaches (''Use '' @ marker @ ''foo'' @ ''}'' @ '' here.'') (length ''Use '')"
    by (simp add: eval_defs)
  have h4: "\<not> tt_search ''Use ''" and h5: "\<not> tt_search '' here.''"
    by (simp_all add: eval_defs)
  from occurrence_replaced_by_capture [OF h1 h2 h3] h4 h5
  have "replaced (''Use '' @ marker @ ''foo'' @ ''}'' @ '' here.'') = ''Use '' @ ''foo'' @ '' here.''"
    by blast
  with h1 h2 h3 h4 h5 show ?thesis by simp
qed

text \<open>
  C1 as stated includes the empty \<open>X\<close>, and there no replacement happens: the text
  \<^verbatim>\<open>a \texttt{} b\<close> is not turned into \<^verbatim>\<open>a  b\<close>.
\<close>

theorem empty_occurrence_counterexample:
  "\<not> tt_search ''a '' \<and> \<not> tt_search '' b'' \<and>
   scan_reaches (''a '' @ marker @ [] @ ''}'' @ '' b'') (length ''a '') \<and>
   replaced (''a '' @ marker @ [] @ ''}'' @ '' b'') \<noteq> ''a '' @ [] @ '' b''"
  by (simp add: eval_defs)

text \<open>
  C5. The matches that the scan finds come in order from left to right and do not
  overlap; each is a span marker, capture, closing brace of the text; and the output
  is the text with every one of these spans replaced by its capture, in the one pass.
  On \<^verbatim>\<open>A \texttt{bar} and \texttt{baz}.\<close> the matches are the spans 2 to 14 and
  19 to 31 and the output is \<^verbatim>\<open>A bar and baz.\<close>
\<close>

theorem matches_in_order_all_replaced:
  "ordered_spans 0 (length s) (tt_finditer 0 s) \<and>
   spans_match s (tt_finditer 0 s) \<and>
   replaced s = splice 0 s (tt_finditer 0 s) \<and>
   tt_finditer 0 (''A '' @ marker @ ''bar} and '' @ marker @ ''baz}.'') =
     [(2, 14, ''bar''), (19, 31, ''baz'')] \<and>
   replaced (''A '' @ marker @ ''bar} and '' @ marker @ ''baz}.'') = ''A bar and baz.''"
proof -
  have "ordered_spans 0 (length s) (tt_finditer 0 s)"
    using ordered_spans_finditer [of 0 s] by simp
  moreover have "spans_match s (tt_finditer 0 s)"
    using spans_match_finditer [of "[]" 0 s] by simp
  moreover have "replaced s = splice 0 s (tt_finditer 0 s)"
    by (simp only: replaced_def sub_splice [of s 0])
  moreover have "tt_finditer 0 (''A '' @ marker @ ''bar} and '' @ marker @ ''baz}.'') =
     [(2, 14, ''bar''), (19, 31, ''baz'')]" by (simp add: eval_defs)
  moreover have "replaced (''A '' @ marker @ ''bar} and '' @ marker @ ''baz}.'') = ''A bar and baz.''"
    by (simp add: eval_defs)
  ultimately show ?thesis by blast
qed

text \<open>
  C4, amended. The transformation applied to its output returns the output exactly
  when the pattern matches nowhere in the output. That is so whenever every capture
  that the scan replaces is plain text (no backslash, no brace) and none continues a
  marker that the copied text began: the copied text right before the occurrence ends
  in a backslash, or in a backslash and the first letters of \<^verbatim>\<open>texttt{\<close>, and the
  capture is the next letters.
\<close>

theorem second_pass_no_op:
  "(replaced (replaced s) = replaced s \<longleftrightarrow> \<not> tt_search (replaced s)) \<and>
   (separate_plain s \<longrightarrow>
      list_all plain (captures s) \<and> \<not> tt_search (replaced s) \<and>
      replaced (replaced s) = replaced s)"
proof -
  have i: "replaced (replaced s) = replaced s \<longleftrightarrow> \<not> tt_search (replaced s)"
    using sub_fixed_iff [of "replaced s"] by (simp add: replaced_def)
  have "list_all plain (captures s) \<and> \<not> tt_search (replaced s) \<and>
      replaced (replaced s) = replaced s" if sp: "separate_plain s"
  proof -
    have "list_all plain (captures s)"
      using separate_plain_captures [OF sp, of 0] by (simp add: captures_def)
    moreover have c: "\<not> tt_search (replaced s)"
      using separate_plain_output_clean [OF sp] by (simp add: replaced_def)
    ultimately show ?thesis using i by simp
  qed
  with i show ?thesis by blast
qed

theorem second_pass_no_op_witness:
  "separate_plain (CHR 0x5C # ''tex'' @ marker @ ''foo} and '' @ marker @ ''baz}.'') \<and>
   captures (CHR 0x5C # ''tex'' @ marker @ ''foo} and '' @ marker @ ''baz}.'') = [''foo'', ''baz''] \<and>
   replaced (CHR 0x5C # ''tex'' @ marker @ ''foo} and '' @ marker @ ''baz}.'') =
     CHR 0x5C # ''texfoo and baz.'' \<and>
   replaced (replaced (CHR 0x5C # ''tex'' @ marker @ ''foo} and '' @ marker @ ''baz}.'')) =
     CHR 0x5C # ''texfoo and baz.''"
proof -
  let ?s = "CHR 0x5C # ''tex'' @ marker @ ''foo} and '' @ marker @ ''baz}.''"
  have h: "separate_plain ?s" by (simp add: eval_defs plain_def)
  have r: "replaced ?s = CHR 0x5C # ''texfoo and baz.''" by (simp add: eval_defs)
  have c: "captures ?s = [''foo'', ''baz'']" by (simp add: eval_defs captures_def)
  from second_pass_no_op [of ?s] h have "replaced (replaced ?s) = replaced ?s" by blast
  with h r c show ?thesis by simp
qed

text \<open>
  C4 as stated asks only for plain captures. In \<^verbatim>\<open>\tex\texttt{t}tt{a}\<close> the one
  capture is the letter \<^verbatim>\<open>t\<close>, the output is \<^verbatim>\<open>\texttt{a}\<close>, and the second
  pass turns it into \<^verbatim>\<open>a\<close>.
\<close>

theorem plain_capture_counterexample:
  "captures (CHR 0x5C # ''tex'' @ marker @ ''t}tt{a}'') = [''t''] \<and> plain ''t'' \<and>
   replaced (CHR 0x5C # ''tex'' @ marker @ ''t}tt{a}'') = marker @ ''a}'' \<and>
   replaced (replaced (CHR 0x5C # ''tex'' @ marker @ ''t}tt{a}'')) = ''a'' \<and>
   replaced (replaced (CHR 0x5C # ''tex'' @ marker @ ''t}tt{a}'')) \<noteq>
     replaced (CHR 0x5C # ''tex'' @ marker @ ''t}tt{a}'')"
  by (simp add: eval_defs captures_def plain_def)

text \<open>
  C7. When the input file cannot be opened for reading, the run ends with a non-zero
  exit status and the error of the open; no file operation has taken place and the
  file system is as before, so the output file is not created. For an input path that
  names no file the error is the operating system's "no such file".
\<close>

theorem missing_input_no_output:
  assumes "drop 1 argv = [in_filename, out_filename]"
    and "open_r w in_filename = Inl e"
  shows "exit_code (remove_tt argv w) \<noteq> 0 \<and> raised (remove_tt argv w) = Some e \<and>
         log (final (remove_tt argv w)) = log w \<and> final (remove_tt argv w) = w \<and>
         (missing w in_filename \<longrightarrow> e = OSError ENOENT (Some in_filename))"
proof -
  from assms have "remove_tt argv w = uncaught e w" by (simp add: remove_tt_def)
  moreover have "e = OSError ENOENT (Some in_filename)" if "missing w in_filename"
    using missing_open_r [OF that] assms(2) by simp
  ultimately show ?thesis by (simp add: uncaught_def)
qed

theorem missing_input_no_output_witness:
  "drop 1 [''remove-tt.py'', ''missing.tex'', ''g.txt''] = [''missing.tex'', ''g.txt''] \<and>
   missing example_world ''missing.tex'' \<and> missing example_world ''g.txt'' \<and>
   open_r example_world ''missing.tex'' = Inl (OSError ENOENT (Some ''missing.tex'')) \<and>
   exit_code (remove_tt [''remove-tt.py'', ''missing.tex'', ''g.txt''] example_world) = 1 \<and>
   raised (remove_tt [''remove-tt.py'', ''missing.tex'', ''g.txt''] example_world) =
     Some (OSError ENOENT (Some ''missing.tex'')) \<and>
   missing (final (remove_tt [''remove-tt.py'', ''missing.tex'', ''g.txt''] example_world)) ''g.txt''"
proof -
  have a: "drop 1 [''remove-tt.py'', ''missing.tex'', ''g.txt''] = [''missing.tex'', ''g.txt'']"
    by simp
  have n: "missing example_world ''missing.tex''" "missing example_world ''g.txt''"
    by (simp_all add: missing_def example_world_def)
  have o: "open_r example_world ''missing.tex'' = Inl (OSError ENOENT (Some ''missing.tex''))"
    by (simp add: open_r_def example_world_def)
  have "exit_code (remove_tt [''remove-tt.py'', ''missing.tex'', ''g.txt''] example_world) = 1"
    by (simp add: remove_tt_def o uncaught_def)
  with missing_input_no_output [OF a o] a n o show ?thesis by simp
qed

text \<open>
  C8, amended. The run writes to one file only, the one that the output path names:
  every other file is as before after every run, successful or failed, and so is the
  input file when the two paths do not name the same file. A successful run is one
  read of the input file, then the opening of the output file, which creates or empties
  it, then one write to it, and the output file then holds the encoded result of the
  substitution on the decoded input; when both paths name the same file this replaces
  the bytes of the input file. A failed run stops before the read, after the read,
  after the opening of the output file, or in the write.
\<close>

theorem writes_only_output_file:
  assumes "drop 1 argv = [in_filename, out_filename]"
  shows "resolve (final (remove_tt argv w)) = resolve w \<and>
         (\<forall>f. resolve w out_filename \<noteq> Inr f \<longrightarrow>
            files (final (remove_tt argv w)) f = files w f) \<and>
         (resolve w in_filename \<noteq> resolve w out_filename \<longrightarrow>
            bytes_of (final (remove_tt argv w)) in_filename = bytes_of w in_filename) \<and>
         (exit_code (remove_tt argv w) = 0 \<longrightarrow>
            (\<exists>fi fo. resolve w in_filename = Inr fi \<and> resolve w out_filename = Inr fo \<and>
               log (final (remove_tt argv w)) = log w @ [Read fi, Truncate fo, Write fo]) \<and>
            bytes_of (final (remove_tt argv w)) out_filename \<noteq> None \<and>
            bytes_of (final (remove_tt argv w)) out_filename =
              Option.bind (Option.bind (bytes_of w in_filename) (decode w))
                (\<lambda>t. encode w (replaced t))) \<and>
         (exit_code (remove_tt argv w) = 0 \<and> resolve w in_filename = resolve w out_filename \<longrightarrow>
            bytes_of (final (remove_tt argv w)) in_filename =
              Option.bind (Option.bind (bytes_of w in_filename) (decode w))
                (\<lambda>t. encode w (replaced t))) \<and>
         (log (final (remove_tt argv w)) = log w \<or>
          (\<exists>fi. resolve w in_filename = Inr fi \<and>
             (log (final (remove_tt argv w)) = log w @ [Read fi] \<or>
              (\<exists>fo. resolve w out_filename = Inr fo \<and>
                 (log (final (remove_tt argv w)) = log w @ [Read fi, Truncate fo] \<or>
                  log (final (remove_tt argv w)) = log w @ [Read fi, Truncate fo, Write fo])))))"
proof -
  let ?r = "remove_tt argv w"
  have rs: "resolve (final ?r) = resolve w" by (rule remove_tt_resolve [OF assms])
  have fr: "\<forall>f. resolve w out_filename \<noteq> Inr f \<longrightarrow> files (final ?r) f = files w f"
    using remove_tt_frame [OF assms] by blast
  have inp: "bytes_of (final ?r) in_filename = bytes_of w in_filename"
    if "resolve w in_filename \<noteq> resolve w out_filename"
  proof (cases "resolve w in_filename")
    case (Inl e)
    with rs show ?thesis by (simp add: bytes_of_def)
  next
    case (Inr fi)
    with that have "resolve w out_filename \<noteq> Inr fi" by auto
    with fr have "files (final ?r) fi = files w fi" by blast
    with Inr rs show ?thesis by (simp add: bytes_of_def)
  qed
  have same: "bytes_of (final ?r) in_filename = bytes_of (final ?r) out_filename"
    if "resolve w in_filename = resolve w out_filename"
    using that rs by (simp add: bytes_of_def)
  from rs fr inp same remove_tt_output [OF assms, of w] remove_tt_log [OF assms, of w]
  show ?thesis by metis
qed

theorem writes_only_output_file_witness:
  "drop 1 [''remove-tt.py'', ''f.tex'', ''g.txt''] = [''f.tex'', ''g.txt''] \<and>
   resolve example_world ''f.tex'' \<noteq> resolve example_world ''g.txt'' \<and>
   exit_code (remove_tt [''remove-tt.py'', ''f.tex'', ''g.txt''] example_world) = 0 \<and>
   log (final (remove_tt [''remove-tt.py'', ''f.tex'', ''g.txt''] example_world)) =
     [Read 0, Truncate 1, Write 1] \<and>
   bytes_of (final (remove_tt [''remove-tt.py'', ''f.tex'', ''g.txt''] example_world)) ''f.tex'' =
     Some (marker @ ''a}'') \<and>
   bytes_of (final (remove_tt [''remove-tt.py'', ''f.tex'', ''g.txt''] example_world)) ''g.txt'' =
     Some ''a''"
proof -
  let ?r = "remove_tt [''remove-tt.py'', ''f.tex'', ''g.txt''] example_world"
  have a: "drop 1 [''remove-tt.py'', ''f.tex'', ''g.txt''] = [''f.tex'', ''g.txt'']" by simp
  have ne: "resolve example_world ''f.tex'' \<noteq> resolve example_world ''g.txt''"
    by (simp add: example_world_def)
  have e: "exit_code ?r = 0"
    by (simp add: remove_tt_def open_r_def read_text_def open_w_def write_text_def
        example_world_def)
  have b: "bytes_of example_world ''f.tex'' = Some (marker @ ''a}'')"
    by (simp add: bytes_of_def example_world_def)
  have d: "decode example_world = Some" "encode example_world = Some"
    "log example_world = []" "resolve example_world ''f.tex'' = Inr 0"
    "resolve example_world ''g.txt'' = Inr 1"
    by (simp_all add: example_world_def)
  have r: "replaced (marker @ ''a}'') = ''a''" by (simp add: eval_defs)
  from writes_only_output_file [OF a, of example_world] ne e b d r a show ?thesis by simp
qed

text \<open>
  C8 as stated holds for every run. When the two paths name the same file, here by
  two spellings, the successful run replaces the bytes of the input file; and a run
  whose input is missing reads and writes nothing.
\<close>

theorem same_file_counterexample:
  "''f.tex'' \<noteq> ''./f.tex'' \<and>
   exit_code (remove_tt [''remove-tt.py'', ''f.tex'', ''./f.tex''] example_world) = 0 \<and>
   bytes_of example_world ''f.tex'' = Some (marker @ ''a}'') \<and>
   bytes_of (final (remove_tt [''remove-tt.py'', ''f.tex'', ''./f.tex''] example_world)) ''f.tex'' =
     Some ''a'' \<and>
   bytes_of (final (remove_tt [''remove-tt.py'', ''f.tex'', ''./f.tex''] example_world)) ''f.tex'' \<noteq>
     bytes_of example_world ''f.tex'' \<and>
   exit_code (remove_tt [''remove-tt.py'', ''missing.tex'', ''g.txt''] example_world) = 1 \<and>
   log (final (remove_tt [''remove-tt.py'', ''missing.tex'', ''g.txt''] example_world)) = []"
  by (simp add: remove_tt_def open_r_def read_text_def open_w_def write_text_def
      example_world_def uncaught_def bytes_of_def eval_defs)

end
